theory Spec2Isabelle
  imports Complex_Main "HOL-Library.Sublist"
begin

section \<open>The browser front end\<close>

text \<open>
  A JavaScript string is a sequence of UTF-16 code units; a code unit is modelled as a
  natural number. Literals of the source are written \<open>js ''...''\<close>.
\<close>

type_synonym js_string = "nat list"

definition js :: "string \<Rightarrow> js_string" where
  "js s = map of_char s"

definition starts_with :: "js_string \<Rightarrow> js_string \<Rightarrow> bool" where
  \<comment> \<open>\<^verbatim>\<open>s.startsWith(pre)\<close>\<close>
  "starts_with pre s \<longleftrightarrow> take (length pre) s = pre"

definition ends_with :: "js_string \<Rightarrow> js_string \<Rightarrow> bool" where
  \<comment> \<open>\<^verbatim>\<open>s.endsWith(suf)\<close>\<close>
  "ends_with suf s \<longleftrightarrow> length suf \<le> length s \<and> drop (length s - length suf) s = suf"

definition js_whitespace :: "nat \<Rightarrow> bool" where
  \<comment> \<open>The code units \<^verbatim>\<open>String.prototype.trim\<close> strips: ECMAScript WhiteSpace and
      LineTerminator (TAB, LF, VT, FF, CR, SP, NBSP, U+1680, U+2000 to U+200A, U+2028,
      U+2029, U+202F, U+205F, U+3000, U+FEFF).\<close>
  "js_whitespace c \<longleftrightarrow>
     c \<in> {9, 10, 11, 12, 13, 32, 160, 5760, 8232, 8233, 8239, 8287, 12288, 65279}
     \<or> (8192 \<le> c \<and> c \<le> 8202)"

definition trim :: "js_string \<Rightarrow> js_string" where
  "trim s = rev (dropWhile js_whitespace (rev (dropWhile js_whitespace s)))"

fun split_nl :: "js_string \<Rightarrow> js_string list" where
  \<comment> \<open>\<^verbatim>\<open>s.split('\n')\<close>: the empty string gives one empty line.\<close>
  "split_nl [] = [[]]"
| "split_nl (c # cs) =
     (if c = 10 then [] # split_nl cs
      else (case split_nl cs of [] \<Rightarrow> [[c]] | l # ls \<Rightarrow> (c # l) # ls))"

subsection \<open>DocumentManager.jsx: choosing a file\<close>

record js_file =
  file_name :: js_string
  file_type :: js_string
  file_size :: nat

record document =
  doc_id :: js_string
  filename :: js_string

record dm_state =
  documents :: "document list"
  dm_loading :: bool
  dm_uploading :: bool
  error :: js_string
  success :: js_string
  selectedFile :: "js_file option"

definition validTypes :: "js_string list" where
  "validTypes =
     [js ''application/pdf'',
      js ''text/plain'',
      js ''application/vnd.openxmlformats-officedocument.wordprocessingml.document'']"

definition invalid_type_message :: js_string where
  "invalid_type_message = js ''Invalid file type. Please upload PDF, TXT, or DOCX files.''"

definition too_large_message :: js_string where
  "too_large_message = js ''File too large. Maximum size is 50MB.''"

definition handleFileSelect :: "js_file option \<Rightarrow> dm_state \<Rightarrow> dm_state" where
  \<comment> \<open>The argument is \<^verbatim>\<open>e.target.files[0]\<close>, \<open>None\<close> when no file was chosen.\<close>
  "handleFileSelect chosen st =
     (case chosen of
        None \<Rightarrow> st
      | Some file \<Rightarrow>
          if file_type file \<notin> set validTypes \<and> \<not> ends_with (js ''.txt'') (file_name file)
          then st\<lparr>error := invalid_type_message\<rparr>
          else if file_size file > 52428800
          then st\<lparr>error := too_large_message\<rparr>
          else st\<lparr>selectedFile := Some file, error := []\<rparr>)"

definition acceptable_file :: "js_file \<Rightarrow> bool" where
  \<comment> \<open>The two checks of the claim: an allowed type (or a \<^verbatim>\<open>.txt\<close> name), at most 50MB.\<close>
  "acceptable_file file \<longleftrightarrow>
     (file_type file = js ''application/pdf''
      \<or> file_type file = js ''text/plain''
      \<or> file_type file =
          js ''application/vnd.openxmlformats-officedocument.wordprocessingml.document''
      \<or> ends_with (js ''.txt'') (file_name file))
     \<and> file_size file \<le> 52428800"

subsection \<open>Chat.jsx: submitting a query\<close>

record message =
  role :: js_string
  content :: js_string

record chat_state =
  query :: js_string
  messages :: "message list"
  loading :: bool
  chat_file :: "js_file option"
  uploading :: bool

record request =
  req_url :: js_string
  req_token :: js_string
  req_query :: js_string

text \<open>
  The collaborators of \<^verbatim>\<open>handleQuery\<close>. \<open>fetch\<close> either rejects (also when the
  response has no readable body) or delivers the decoded chunks of the stream, with a flag
  telling whether the stream ended normally (\<open>False\<close>: a later \<^verbatim>\<open>reader.read()\<close>
  rejected). \<^verbatim>\<open>JSON.parse\<close> gives the \<^verbatim>\<open>type\<close> of the event and the text
  that \<^verbatim>\<open>aiResponse += data.content\<close> appends, or throws (\<open>None\<close>).
\<close>

datatype fetch_result = Rejected | Stream "js_string list" bool

record sse_data =
  data_type :: js_string
  data_content :: js_string

definition error_message :: message where
  "error_message = \<lparr>role = js ''assistant'', content = js ''Error: Could not process query''\<rparr>"

definition show_response :: "js_string \<Rightarrow> message list \<Rightarrow> message list" where
  \<comment> \<open>The updater passed to \<^verbatim>\<open>setMessages\<close> for each token.\<close>
  "show_response aiResponse prev =
     (if prev \<noteq> [] \<and> role (last prev) = js ''assistant''
      then butlast prev @ [(last prev)\<lparr>content := aiResponse\<rparr>]
      else prev @ [\<lparr>role = js ''assistant'', content = aiResponse\<rparr>])"

fun process_lines ::
  "(js_string \<Rightarrow> sse_data option) \<Rightarrow> js_string list \<Rightarrow> js_string \<times> message list
   \<Rightarrow> bool \<times> js_string \<times> message list" where
  \<comment> \<open>The \<^verbatim>\<open>for (const line of lines)\<close> loop; the flag says that no exception was thrown.\<close>
  "process_lines parse [] (aiResponse, msgs) = (True, aiResponse, msgs)"
| "process_lines parse (line # lines) (aiResponse, msgs) =
     (if starts_with (js ''data: '') line then
        (case parse (drop 6 line) of
           None \<Rightarrow> (False, aiResponse, msgs)
         | Some d \<Rightarrow>
             if data_type d = js ''token''
             then process_lines parse lines
                    (aiResponse @ data_content d, show_response (aiResponse @ data_content d) msgs)
             else process_lines parse lines (aiResponse, msgs))
      else process_lines parse lines (aiResponse, msgs))"

fun process_chunks ::
  "(js_string \<Rightarrow> sse_data option) \<Rightarrow> js_string list \<Rightarrow> js_string \<times> message list
   \<Rightarrow> bool \<times> js_string \<times> message list" where
  \<comment> \<open>The \<^verbatim>\<open>while (true)\<close> loop over the chunks the reader delivers.\<close>
  "process_chunks parse [] (aiResponse, msgs) = (True, aiResponse, msgs)"
| "process_chunks parse (chunk # chunks) (aiResponse, msgs) =
     (case process_lines parse (split_nl chunk) (aiResponse, msgs) of
        (True, acc) \<Rightarrow> process_chunks parse chunks acc
      | (False, acc) \<Rightarrow> (False, acc))"

record submit_result =
  next_state :: chat_state
  requests :: "request list"
  default_prevented :: bool

definition handleQuery ::
  "(js_string \<Rightarrow> sse_data option) \<Rightarrow> (request \<Rightarrow> fetch_result) \<Rightarrow> js_string
   \<Rightarrow> chat_state \<Rightarrow> submit_result" where
  "handleQuery parse fetch token st =
     (if trim (query st) = [] then
        \<lparr>next_state = st, requests = [], default_prevented = True\<rparr>
      else
        let userMessage = \<lparr>role = js ''user'', content = query st\<rparr>;
            sent = messages st @ [userMessage];
            req = \<lparr>req_url = js ''http://localhost:8000/api/v1/chat/query'',
                   req_token = token, req_query = query st\<rparr>;
            shown =
              (case fetch req of
                 Rejected \<Rightarrow> sent @ [error_message]
               | Stream chunks ended \<Rightarrow>
                   (case process_chunks parse chunks ([], sent) of
                      (ok, aiResponse, msgs) \<Rightarrow>
                        if ok \<and> ended then msgs else msgs @ [error_message]))
        in \<lparr>next_state = st\<lparr>query := [], messages := shown, loading := False\<rparr>,
            requests = [req], default_prevented = True\<rparr>)"

section \<open>The retrieval code of the design documents\<close>

text \<open>
  The Python of the repository's design documents. A Python string is modelled as a
  \<open>string\<close> whose characters are the code points below 256; \<^verbatim>\<open>str.lower\<close> maps the
  upper-case letters of that range (A to Z, and U+00C0 to U+00DE without U+00D7) to their
  lower-case partners, 32 code points further.
\<close>

definition lower_char :: "char \<Rightarrow> char" where
  "lower_char c =
     (let n = (of_char c :: nat)
      in if (65 \<le> n \<and> n \<le> 90) \<or> (192 \<le> n \<and> n \<le> 214) \<or> (216 \<le> n \<and> n \<le> 222)
         then char_of (n + 32) else c)"

definition lower :: "string \<Rightarrow> string" where
  "lower s = map lower_char s"

fun py_in :: "string \<Rightarrow> string \<Rightarrow> bool" where
  \<comment> \<open>\<^verbatim>\<open>sub in s\<close> on strings: \<open>sub\<close> occurs in \<open>s\<close> as a contiguous run.\<close>
  "py_in sub [] \<longleftrightarrow> sub = []"
| "py_in sub (c # cs) \<longleftrightarrow> prefix sub (c # cs) \<or> py_in sub cs"

fun join :: "string \<Rightarrow> string list \<Rightarrow> string" where
  \<comment> \<open>\<^verbatim>\<open>sep.join(xs)\<close>\<close>
  "join sep [] = []"
| "join sep [x] = x"
| "join sep (x # y # ys) = x @ sep @ join sep (y # ys)"

subsection \<open>Query expansion with synonyms\<close>

definition INSURANCE_SYNONYMS :: "(string \<times> string list) list" where
  \<comment> \<open>The dictionary, in insertion order.\<close>
  "INSURANCE_SYNONYMS =
     [(''baby'', [''newborn'', ''new born baby'', ''infant'', ''neonate'']),
      (''treatment'', [''medical procedure'', ''therapy'', ''medical care'']),
      (''scientifically unproven'',
         [''experimental'', ''investigational'', ''not medically necessary'']),
      (''accident'', [''accidental injury'', ''bodily injury'', ''external injury''])]"

definition expand_query :: "string \<Rightarrow> string" where
  "expand_query query_text =
     fold (\<lambda>(term, synonyms) expanded.
             if py_in (lower term) (lower query_text)
             then expanded @ '' '' @ join '' OR '' synonyms
             else expanded)
       INSURANCE_SYNONYMS query_text"

subsection \<open>Retrieval with re-ranking\<close>

datatype py_error = IndexError

definition py_sorted_reverse :: "('a \<Rightarrow> 'k::linorder) \<Rightarrow> 'a list \<Rightarrow> 'a list" where
  \<comment> \<open>\<^verbatim>\<open>sorted(xs, key=key, reverse=True)\<close>: the list is reversed, sorted by a stable
      ascending sort, and reversed again, so that elements with equal keys keep the order
      they had in \<open>xs\<close>.\<close>
  "py_sorted_reverse key xs = rev (sort_key key (rev xs))"

definition py_slice_to :: "int \<Rightarrow> 'a list \<Rightarrow> 'a list" where
  \<comment> \<open>\<^verbatim>\<open>xs[:k]\<close>: a negative \<open>k\<close> counts from the end.\<close>
  "py_slice_to k xs = (if 0 \<le> k then take (nat k) xs else take (length xs - nat (- k)) xs)"

definition top_indices :: "'s::linorder list \<Rightarrow> int \<Rightarrow> nat list" where
  \<comment> \<open>\<^verbatim>\<open>sorted(range(len(scores)), key=lambda i: scores[i], reverse=True)[:final_top_k]\<close>\<close>
  "top_indices scores final_top_k =
     py_slice_to final_top_k (py_sorted_reverse (\<lambda>i. scores ! i) [0..<length scores])"

record query_results =
  res_ids :: "string list list"
  res_documents :: "string list list"

text \<open>
  \<^verbatim>\<open>search_with_reranking\<close>. Its collaborators are parameters: \<open>search\<close> is
  \<^verbatim>\<open>cls.search\<close>, which answers with one list of ids and one list of chunk texts per query
  text, and \<^verbatim>\<open>calculate_relevance_score\<close> gives scores of any linearly ordered type.
  The documented function ends with the computation of \<^verbatim>\<open>top_indices\<close>; the model
  returns them: the positions, in the retrieved pool, of the re-ranked results in order.
\<close>

definition search_with_reranking ::
  "(string \<Rightarrow> int \<Rightarrow> query_results) \<Rightarrow> (string \<Rightarrow> string \<Rightarrow> 's::linorder)
   \<Rightarrow> string \<Rightarrow> int \<Rightarrow> int \<Rightarrow> py_error + nat list" where
  "search_with_reranking search calculate_relevance_score query_text n_results final_top_k =
     (let expanded_query = expand_query query_text;
          results = search expanded_query n_results
      in case res_documents results of
           [] \<Rightarrow> Inl IndexError
         | chunks # _ \<Rightarrow>
             let scores = map (calculate_relevance_score query_text) chunks
             in Inr (top_indices scores final_top_k))"

definition pool :: "(string \<Rightarrow> int \<Rightarrow> query_results) \<Rightarrow> string \<Rightarrow> int \<Rightarrow> string list" where
  \<comment> \<open>The candidate pool of a run: \<^verbatim>\<open>results['documents'][0]\<close>.\<close>
  "pool search query_text n_results =
     (case res_documents (search (expand_query query_text) n_results) of
        [] \<Rightarrow> [] | chunks # _ \<Rightarrow> chunks)"

definition pool_ids :: "(string \<Rightarrow> int \<Rightarrow> query_results) \<Rightarrow> string \<Rightarrow> int \<Rightarrow> string list" where
  \<comment> \<open>The Fragment identifiers of the pool: \<^verbatim>\<open>results['ids'][0]\<close>.\<close>
  "pool_ids search query_text n_results =
     (case res_ids (search (expand_query query_text) n_results) of
        [] \<Rightarrow> [] | ids # _ \<Rightarrow> ids)"

definition ordered_by_score_then_identifier ::
  "'i::linorder list \<Rightarrow> 's::linorder list \<Rightarrow> nat list \<Rightarrow> bool" where
  \<comment> \<open>The order the specification asks of a ranked sequence \<open>r\<close> of pool positions: by
      score descending, entries of equal score by ascending Fragment identifier.\<close>
  "ordered_by_score_then_identifier ids scores r \<longleftrightarrow>
     sorted_wrt
       (\<lambda>i j. scores ! j < scores ! i \<or> (scores ! i = scores ! j \<and> ids ! i < ids ! j)) r"

subsection \<open>Query intent\<close>

definition classify_query_intent :: "string \<Rightarrow> string" where
  "classify_query_intent query_text =
     (let query_lower = lower query_text in
      if list_ex (\<lambda>word. py_in word query_lower)
           [''what is'', ''define'', ''definition'', ''meaning'']
      then ''definition''
      else if list_ex (\<lambda>word. py_in word query_lower)
           [''does it cover'', ''coverage'', ''included'']
      then ''coverage_check''
      else if list_ex (\<lambda>word. py_in word query_lower)
           [''how much'', ''limit'', ''sum'']
      then ''amount_query''
      else ''general'')"

subsection \<open>Adaptive scoring\<close>

text \<open>
  The nine sub-scores of a candidate. The decimal literals of the source are read as the
  rational numbers they denote.
\<close>

record signals =
  semantic :: real
  lexical :: real
  hyde :: real
  concepts :: real
  exclusions :: real
  context_hint :: real
  multi :: real
  length_norm :: real
  metadata :: real

definition score :: "string \<Rightarrow> signals \<Rightarrow> real" where
  "score query_type s =
     (if query_type = ''definition'' then
        0.40 * semantic s + 0.25 * concepts s + 0.15 * lexical s + 0.10 * hyde s
        + 0.05 * context_hint s + 0.05 * multi s
      else if query_type = ''exclusion'' then
        0.30 * semantic s + 0.30 * exclusions s + 0.20 * lexical s + 0.10 * context_hint s
        + 0.10 * multi s
      else if query_type = ''coverage'' then
        0.35 * semantic s + 0.25 * lexical s + 0.15 * concepts s + 0.10 * hyde s
        + 0.10 * context_hint s + 0.05 * multi s
      else
        0.35 * semantic s + 0.20 * lexical s + 0.15 * concepts s + 0.10 * hyde s
        + 0.08 * exclusions s + 0.07 * context_hint s + 0.03 * length_norm s
        + 0.02 * metadata s)"

text \<open>
  The weight vector of a query type is read off the scoring formula: the weight of a
  signal is the score of the candidate whose only non-zero sub-score is that signal, at 1.
\<close>

datatype signal =
  Semantic | Lexical | Hyde | Concepts | Exclusions | Context_Hint | Multi | Length_Norm
  | Metadata



definition only :: "signal \<Rightarrow> signals" where
  "only g =
     \<lparr>semantic = of_bool (g = Semantic), lexical = of_bool (g = Lexical),
      hyde = of_bool (g = Hyde), concepts = of_bool (g = Concepts),
      exclusions = of_bool (g = Exclusions), context_hint = of_bool (g = Context_Hint),
      multi = of_bool (g = Multi), length_norm = of_bool (g = Length_Norm),
      metadata = of_bool (g = Metadata)\<rparr>"

definition weight :: "string \<Rightarrow> signal \<Rightarrow> real" where
  "weight query_type g = score query_type (only g)"



section \<open>The retrieval-and-reranking engine of the specification\<close>

text \<open>
  The query expander, the multi-query retriever and the diversity reranker are not among
  the sources; the definitions of this section follow the specification. The generation
  collaborator, the parser of its structured response, the embedding-similarity store and
  the computation of the nine sub-scores are parameters. Fragment and source-document
  identifiers are natural numbers.
\<close>

datatype query_type = Definition | Exclusion | Coverage | General






record candidate =
  fragment_id :: nat
  source_document :: nat
  fragment_text :: string
  raw_distance :: real
  hit_count :: nat





record scored_candidate =
  sc_candidate :: candidate
  sc_signals :: signals
  composite_score :: real


definition source_of :: "scored_candidate \<Rightarrow> nat" where
  "source_of c = source_document (sc_candidate c)"

definition ident_of :: "scored_candidate \<Rightarrow> nat" where
  "ident_of c = fragment_id (sc_candidate c)"

definition source_count :: "nat \<Rightarrow> scored_candidate list \<Rightarrow> nat" where
  \<comment> \<open>How many fragments of a list come from the source document \<open>d\<close>.\<close>
  "source_count d cs = length (filter (\<lambda>c. source_of c = d) cs)"

definition sort_candidates :: "scored_candidate list \<Rightarrow> scored_candidate list" where
  \<comment> \<open>Modelled from the spec: the sort of section 4.5 (the diversity reranker is missing):
      descending by composite score with a stable sort, ties broken by Fragment
      identifier.\<close>
  "sort_candidates cs = py_sorted_reverse composite_score (sort_key ident_of cs)"

fun greedy ::
  "nat \<Rightarrow> nat \<Rightarrow> scored_candidate list \<Rightarrow> scored_candidate list \<Rightarrow> scored_candidate list" where
  \<comment> \<open>Modelled from the spec: the greedy pass of section 4.5 (the diversity reranker is
      missing): in score order, a candidate is admitted only if its source document has
      not yet reached \<open>max_per_source\<close> admitted fragments; the pass fills at most
      \<open>top_k\<close> slots.\<close>
  "greedy top_k max_per_source admitted [] = admitted"
| "greedy top_k max_per_source admitted (c # cs) =
     (if length admitted < top_k \<and> source_count (source_of c) admitted < max_per_source
      then greedy top_k max_per_source (admitted @ [c]) cs
      else greedy top_k max_per_source admitted cs)"

record ranked_result =
  entries :: "scored_candidate list"
  diversity_shortfall :: bool

definition backfill ::
  "nat \<Rightarrow> scored_candidate list \<Rightarrow> scored_candidate list \<Rightarrow> scored_candidate list" where
  \<comment> \<open>Modelled from the spec: the backfill of section 4.5 (the diversity reranker is
      missing): when the greedy pass yields fewer than \<open>top_k\<close> results, the remaining
      slots go to the highest-scoring candidates not yet selected, regardless of the cap.\<close>
  "backfill top_k selected ordered =
     (if length selected < top_k
      then take (top_k - length selected)
             (filter (\<lambda>c. ident_of c \<notin> set (map ident_of selected)) ordered)
      else [])"

definition rerank :: "scored_candidate list \<Rightarrow> nat \<Rightarrow> nat \<Rightarrow> ranked_result" where
  \<comment> \<open>Modelled from the spec: the rerank operation of section 4.5 (the diversity reranker
      is missing). The selected and the backfilled candidates are returned in the overall
      score order; the diversity shortfall of section 8 is reported when backfill filled
      a slot.\<close>
  "rerank scored_candidates top_k max_per_source =
     (let ordered = sort_candidates scored_candidates;
          selected = greedy top_k max_per_source [] ordered;
          filled = backfill top_k selected ordered
      in \<lparr>entries = filter (\<lambda>c. ident_of c \<in> set (map ident_of (selected @ filled))) ordered,
          diversity_shortfall = (filled \<noteq> [])\<rparr>)"


section \<open>Properties of the front end\<close>

lemma trim_whitespace_only:
  "(\<forall>c \<in> set s. js_whitespace c) \<Longrightarrow> trim s = []"
proof -
  assume "\<forall>c \<in> set s. js_whitespace c"
  then have h: "dropWhile js_whitespace s = []"
    by (simp add: dropWhile_eq_Nil_conv)
  show ?thesis
    by (simp only: trim_def h rev.simps dropWhile.simps)
qed

lemma trim_empty_only_whitespace:
  assumes "trim s = []"
  shows "\<forall>c \<in> set s. js_whitespace c"
proof -
  let ?d = "dropWhile js_whitespace s"
  from assms have "dropWhile js_whitespace (rev ?d) = []"
    by (simp add: trim_def)
  then have all: "\<forall>c \<in> set ?d. js_whitespace c"
    by (simp add: dropWhile_eq_Nil_conv)
  have "?d = []"
  proof (rule ccontr)
    assume ne: "?d \<noteq> []"
    then have "\<not> js_whitespace (hd ?d)"
      by (rule hd_dropWhile)
    moreover from ne have "hd ?d \<in> set ?d"
      by (rule hd_in_set)
    ultimately show False
      using all by blast
  qed
  then show ?thesis
    by (simp add: dropWhile_eq_Nil_conv)
qed

lemma acceptable_file_iff:
  "acceptable_file f \<longleftrightarrow>
     \<not> (file_type f \<notin> set validTypes \<and> \<not> ends_with (js ''.txt'') (file_name f))
     \<and> \<not> file_size f > 52428800"
  by (auto simp add: acceptable_file_def validTypes_def)

lemma upload_messages_nonempty:
  "invalid_type_message \<noteq> []" "too_large_message \<noteq> []"
  by (simp_all add: invalid_type_message_def too_large_message_def js_def)

text \<open>
  Claim C9. In \<^verbatim>\<open>handleFileSelect\<close> a chosen file becomes the selected file (and the
  error is cleared) when its MIME type is \<^verbatim>\<open>application/pdf\<close>, \<^verbatim>\<open>text/plain\<close> or the
  DOCX type, or its name ends in \<^verbatim>\<open>.txt\<close>, and its size is at most 52428800 bytes.
  For every other file the selected file is left as it was and one of the two error
  messages, neither of them empty, is set; nothing else of the state changes in either
  case.
\<close>

theorem handleFileSelect_accepts_valid_only:
  "(acceptable_file f \<longrightarrow>
      handleFileSelect (Some f) st = st\<lparr>selectedFile := Some f, error := []\<rparr>)
   \<and> (\<not> acceptable_file f \<longrightarrow>
      selectedFile (handleFileSelect (Some f) st) = selectedFile st
      \<and> error (handleFileSelect (Some f) st) \<in> {invalid_type_message, too_large_message}
      \<and> error (handleFileSelect (Some f) st) \<noteq> []
      \<and> handleFileSelect (Some f) st = st\<lparr>error := error (handleFileSelect (Some f) st)\<rparr>)"
proof (intro conjI impI)
  assume "acceptable_file f"
  then show "handleFileSelect (Some f) st = st\<lparr>selectedFile := Some f, error := []\<rparr>"
    unfolding acceptable_file_iff by (auto simp add: handleFileSelect_def)
next
  assume bad: "\<not> acceptable_file f"
  then consider
      (type) "file_type f \<notin> set validTypes \<and> \<not> ends_with (js ''.txt'') (file_name f)"
    | (size) "\<not> (file_type f \<notin> set validTypes \<and> \<not> ends_with (js ''.txt'') (file_name f))"
        "file_size f > 52428800"
    unfolding acceptable_file_iff by blast
  then have res: "handleFileSelect (Some f) st = st\<lparr>error := invalid_type_message\<rparr>
      \<or> handleFileSelect (Some f) st = st\<lparr>error := too_large_message\<rparr>"
  proof cases
    case type
    then show ?thesis by (simp add: handleFileSelect_def)
  next
    case size
    then show ?thesis by (simp add: handleFileSelect_def)
  qed
  from res show "selectedFile (handleFileSelect (Some f) st) = selectedFile st"
    by auto
  from res show "error (handleFileSelect (Some f) st) \<in> {invalid_type_message, too_large_message}"
    by auto
  from res show "error (handleFileSelect (Some f) st) \<noteq> []"
    using upload_messages_nonempty by auto
  from res show "handleFileSelect (Some f) st = st\<lparr>error := error (handleFileSelect (Some f) st)\<rparr>"
    by auto
qed

theorem handleFileSelect_accepts_valid_only_witness:
  "acceptable_file \<lparr>file_name = js ''policy.pdf'', file_type = js ''application/pdf'',
                    file_size = 52428800\<rparr>
   \<and> selectedFile
       (handleFileSelect
          (Some \<lparr>file_name = js ''policy.pdf'', file_type = js ''application/pdf'',
                 file_size = 52428800\<rparr>)
          \<lparr>documents = [], dm_loading = False, dm_uploading = False, error = js ''old'',
           success = [], selectedFile = None\<rparr>)
     = Some \<lparr>file_name = js ''policy.pdf'', file_type = js ''application/pdf'',
              file_size = 52428800\<rparr>
   \<and> \<not> acceptable_file \<lparr>file_name = js ''notes.txt'', file_type = [], file_size = 52428801\<rparr>
   \<and> selectedFile
       (handleFileSelect
          (Some \<lparr>file_name = js ''notes.txt'', file_type = [], file_size = 52428801\<rparr>)
          \<lparr>documents = [], dm_loading = False, dm_uploading = False, error = [],
           success = [], selectedFile = None\<rparr>)
     = None
   \<and> error
       (handleFileSelect
          (Some \<lparr>file_name = js ''notes.txt'', file_type = [], file_size = 52428801\<rparr>)
          \<lparr>documents = [], dm_loading = False, dm_uploading = False, error = [],
           success = [], selectedFile = None\<rparr>)
     \<noteq> []"
proof -
  have ok: "acceptable_file \<lparr>file_name = js ''policy.pdf'', file_type = js ''application/pdf'',
                             file_size = 52428800\<rparr>"
    by (simp add: acceptable_file_def)
  have bad: "\<not> acceptable_file \<lparr>file_name = js ''notes.txt'', file_type = [],
                                   file_size = 52428801\<rparr>"
    by (simp add: acceptable_file_def js_def)
  show ?thesis
    using ok bad
      handleFileSelect_accepts_valid_only
        [of "\<lparr>file_name = js ''policy.pdf'', file_type = js ''application/pdf'',
              file_size = 52428800\<rparr>"
            "\<lparr>documents = [], dm_loading = False, dm_uploading = False, error = js ''old'',
              success = [], selectedFile = None\<rparr>"]
      handleFileSelect_accepts_valid_only
        [of "\<lparr>file_name = js ''notes.txt'', file_type = [], file_size = 52428801\<rparr>"
            "\<lparr>documents = [], dm_loading = False, dm_uploading = False, error = [],
              success = [], selectedFile = None\<rparr>"]
    by simp
qed

text \<open>
  Claim C10. In \<^verbatim>\<open>handleQuery\<close>, when the query text is empty or has only whitespace,
  submitting the form issues no request and leaves the whole state of the component, so
  the message list, the query text and the loading flag, as it was.
\<close>

theorem handleQuery_blank_is_noop:
  "(\<forall>c \<in> set (query st). js_whitespace c) \<Longrightarrow>
     requests (handleQuery parse fetch token st) = []
     \<and> next_state (handleQuery parse fetch token st) = st
     \<and> messages (next_state (handleQuery parse fetch token st)) = messages st
     \<and> query (next_state (handleQuery parse fetch token st)) = query st
     \<and> loading (next_state (handleQuery parse fetch token st)) = loading st"
proof -
  assume "\<forall>c \<in> set (query st). js_whitespace c"
  then have "trim (query st) = []"
    by (rule trim_whitespace_only)
  then show ?thesis
    by (simp add: handleQuery_def)
qed

theorem handleQuery_blank_is_noop_witness:
  "list_all js_whitespace (js '' '' @ [9, 10, 8195])
   \<and> requests
       (handleQuery (\<lambda>s. None) (\<lambda>r. Stream [] True) (js ''t'')
          \<lparr>query = js '' '' @ [9, 10, 8195], messages = [error_message], loading = True,
           chat_file = None, uploading = False\<rparr>) = []
   \<and> next_state
       (handleQuery (\<lambda>s. None) (\<lambda>r. Stream [] True) (js ''t'')
          \<lparr>query = js '' '' @ [9, 10, 8195], messages = [error_message], loading = True,
           chat_file = None, uploading = False\<rparr>)
     = \<lparr>query = js '' '' @ [9, 10, 8195], messages = [error_message], loading = True,
        chat_file = None, uploading = False\<rparr>"
proof -
  have blank: "\<forall>c \<in> set (js '' '' @ [9, 10, 8195]). js_whitespace c"
    by (simp add: js_def js_whitespace_def)
  show ?thesis
    using blank list_all_iff [of js_whitespace "js '' '' @ [9, 10, 8195]"]
      handleQuery_blank_is_noop
        [of "\<lparr>query = js '' '' @ [9, 10, 8195], messages = [error_message], loading = True,
              chat_file = None, uploading = False\<rparr>"
            "\<lambda>s. None" "\<lambda>r. Stream [] True" "js ''t''"]
    by simp
qed

section \<open>Properties of the documented retrieval code\<close>

subsection \<open>Sorting and slicing\<close>

lemma set_py_sorted_reverse: "set (py_sorted_reverse key xs) = set xs"
  by (simp add: py_sorted_reverse_def)

lemma length_py_sorted_reverse: "length (py_sorted_reverse key xs) = length xs"
  by (simp add: py_sorted_reverse_def)

lemma distinct_py_sorted_reverse: "distinct (py_sorted_reverse key xs) = distinct xs"
  by (simp add: py_sorted_reverse_def)

lemma insort_key_ties:
  fixes key :: "'a::linorder \<Rightarrow> 'k::linorder"
  assumes "sorted_wrt (\<lambda>a b. key a < key b \<or> (key a = key b \<and> b < a)) zs"
    and "\<forall>z \<in> set zs. z < y"
  shows "sorted_wrt (\<lambda>a b. key a < key b \<or> (key a = key b \<and> b < a)) (insort_key key y zs)"
  using assms
proof (induction zs)
  case Nil
  then show ?case by simp
next
  case (Cons z zs)
  show ?case
  proof (cases "key y \<le> key z")
    case True
    have "\<forall>b \<in> set (z # zs). key y < key b \<or> (key y = key b \<and> b < y)"
    proof
      fix b assume b: "b \<in> set (z # zs)"
      have "key z \<le> key b"
        using b Cons.prems(1) by auto
      with True have "key y \<le> key b" by simp
      moreover have "b < y" using b Cons.prems(2) by blast
      ultimately show "key y < key b \<or> (key y = key b \<and> b < y)" by auto
    qed
    with True Cons.prems(1) show ?thesis by simp
  next
    case False
    then have zy: "key z < key y" by simp
    have ih: "sorted_wrt (\<lambda>a b. key a < key b \<or> (key a = key b \<and> b < a)) (insort_key key y zs)"
      using Cons by simp
    have "\<forall>b \<in> set (insort_key key y zs). key z < key b \<or> (key z = key b \<and> b < z)"
      using Cons.prems(1) zy by (auto simp: set_insort_key)
    with False ih show ?thesis by simp
  qed
qed

lemma sort_key_ties:
  fixes key :: "'a::linorder \<Rightarrow> 'k::linorder"
  assumes "sorted_wrt (\<lambda>a b. b < a) ys"
  shows "sorted_wrt (\<lambda>a b. key a < key b \<or> (key a = key b \<and> b < a)) (sort_key key ys)"
  using assms
proof (induction ys)
  case Nil
  then show ?case by simp
next
  case (Cons y ys)
  then have "sorted_wrt (\<lambda>a b. key a < key b \<or> (key a = key b \<and> b < a)) (sort_key key ys)"
    by simp
  moreover have "\<forall>z \<in> set (sort_key key ys). z < y"
    using Cons.prems by simp
  ultimately show ?case
    by (simp add: insort_key_ties)
qed

lemma py_sorted_reverse_order:
  fixes key :: "'a::linorder \<Rightarrow> 'k::linorder"
  assumes "sorted_wrt (<) xs"
  shows "sorted_wrt (\<lambda>a b. key b < key a \<or> (key a = key b \<and> a < b)) (py_sorted_reverse key xs)"
proof -
  have "sorted_wrt (\<lambda>a b. b < a) (rev xs)"
    using assms by (simp add: sorted_wrt_rev)
  then have "sorted_wrt (\<lambda>a b. key a < key b \<or> (key a = key b \<and> b < a)) (sort_key key (rev xs))"
    by (rule sort_key_ties)
  then have "sorted_wrt (\<lambda>b a. key a < key b \<or> (key a = key b \<and> b < a)) (rev (sort_key key (rev xs)))"
    by (simp add: sorted_wrt_rev)
  moreover have "(\<lambda>b a. key a < key b \<or> (key a = key b \<and> b < a))
      = (\<lambda>a b. key b < key a \<or> (key a = key b \<and> a < b))"
    by (intro ext) auto
  ultimately show ?thesis
    by (simp add: py_sorted_reverse_def)
qed

lemma py_slice_to_take: "\<exists>n. py_slice_to k xs = take n xs"
  by (auto simp: py_slice_to_def)

lemma length_py_slice_to:
  "0 \<le> k \<Longrightarrow> int (length (py_slice_to k xs)) \<le> k"
  by (simp add: py_slice_to_def)

lemma py_slice_to_all:
  "int (length xs) \<le> k \<Longrightarrow> py_slice_to k xs = xs"
  by (simp add: py_slice_to_def)

lemma top_indices_take:
  "\<exists>n. top_indices scores k = take n (py_sorted_reverse (\<lambda>i. scores ! i) [0..<length scores])"
  unfolding top_indices_def by (rule py_slice_to_take)

lemma distinct_top_indices: "distinct (top_indices scores k)"
proof -
  obtain n where "top_indices scores k = take n (py_sorted_reverse (\<lambda>i. scores ! i) [0..<length scores])"
    using top_indices_take by blast
  then show ?thesis
    by (simp add: distinct_py_sorted_reverse)
qed

lemma set_top_indices: "set (top_indices scores k) \<subseteq> {0..<length scores}"
proof -
  obtain n where "top_indices scores k = take n (py_sorted_reverse (\<lambda>i. scores ! i) [0..<length scores])"
    using top_indices_take by blast
  then have "set (top_indices scores k) \<subseteq> set (py_sorted_reverse (\<lambda>i. scores ! i) [0..<length scores])"
    by (simp add: set_take_subset)
  then show ?thesis
    by (simp add: set_py_sorted_reverse)
qed

lemma length_top_indices: "0 \<le> k \<Longrightarrow> int (length (top_indices scores k)) \<le> k"
  unfolding top_indices_def by (rule length_py_slice_to)

lemma top_indices_small_pool:
  assumes "int (length scores) \<le> k"
  shows "length (top_indices scores k) = length scores"
    and "set (top_indices scores k) = {0..<length scores}"
proof -
  have "top_indices scores k = py_sorted_reverse (\<lambda>i. scores ! i) [0..<length scores]"
    unfolding top_indices_def using assms
    by (intro py_slice_to_all) (simp add: length_py_sorted_reverse)
  then show "length (top_indices scores k) = length scores"
    and "set (top_indices scores k) = {0..<length scores}"
    by (simp_all add: length_py_sorted_reverse set_py_sorted_reverse)
qed

lemma top_indices_order:
  "sorted_wrt (\<lambda>i j. scores ! j < scores ! i \<or> (scores ! i = scores ! j \<and> i < j))
     (top_indices scores k)"
proof -
  obtain n where n: "top_indices scores k = take n (py_sorted_reverse (\<lambda>i. scores ! i) [0..<length scores])"
    using top_indices_take by blast
  have "sorted_wrt (<) [0..<length scores]"
    by simp
  then have "sorted_wrt (\<lambda>i j. scores ! j < scores ! i \<or> (scores ! i = scores ! j \<and> i < j))
     (py_sorted_reverse (\<lambda>i. scores ! i) [0..<length scores])"
    by (rule py_sorted_reverse_order)
  then show ?thesis
    unfolding n by (rule sorted_wrt_take)
qed


lemma search_with_reranking_Inr:
  assumes "search_with_reranking search calc q n k = Inr r"
  shows "r = top_indices (map (calc q) (pool search q n)) k"
  using assms
  by (auto simp: search_with_reranking_def pool_def Let_def split: list.splits)

lemma search_with_reranking_returns:
  assumes "res_documents (search (expand_query q) n) \<noteq> []"
  shows "search_with_reranking search calc q n k
       = Inr (top_indices (map (calc q) (pool search q n)) k)"
  using assms
  by (auto simp: search_with_reranking_def pool_def Let_def split: list.splits)

lemma distinct_map_nth:
  assumes "distinct ids" "distinct r" "set r \<subseteq> {0..<length ids}"
  shows "distinct (map ((!) ids) r)"
proof -
  have "inj_on ((!) ids) (set r)"
  proof (rule inj_onI)
    fix x y assume "x \<in> set r" "y \<in> set r" "ids ! x = ids ! y"
    moreover from this assms(3) have "x < length ids" "y < length ids"
      by auto
    ultimately show "x = y"
      using assms(1) by (simp add: nth_eq_iff_index_eq)
  qed
  with assms(2) show ?thesis
    by (simp add: distinct_map)
qed

subsection \<open>The ranked result\<close>

text \<open>
  Claim C1. Whenever \<^verbatim>\<open>search_with_reranking\<close> returns, for a result count
  \<open>final_top_k\<close> that is not negative and a pool whose Fragment identifiers are pairwise
  different: the ranked result has at most \<open>final_top_k\<close> entries, no pool position and no
  Fragment identifier occurs in it twice, every entry is a candidate of the pool, and when
  the pool has fewer than \<open>final_top_k\<close> candidates the result has exactly the pool's size
  and consists of the pool's candidates, nothing else.
\<close>

theorem search_with_reranking_bounded_distinct:
  assumes "search_with_reranking search calc q n k = Inr r"
    and "0 \<le> k"
    and "distinct (pool_ids search q n)"
    and "length (pool_ids search q n) = length (pool search q n)"
  shows "int (length r) \<le> k
     \<and> distinct r
     \<and> distinct (map ((!) (pool_ids search q n)) r)
     \<and> set r \<subseteq> {0..<length (pool search q n)}
     \<and> (int (length (pool search q n)) < k \<longrightarrow>
          length r = length (pool search q n) \<and> set r = {0..<length (pool search q n)})"
proof -
  let ?scores = "map (calc q) (pool search q n)"
  have r: "r = top_indices ?scores k"
    using assms(1) by (rule search_with_reranking_Inr)
  have len: "int (length r) \<le> k"
    unfolding r using assms(2) by (rule length_top_indices)
  have dist: "distinct r"
    unfolding r by (rule distinct_top_indices)
  have sub: "set r \<subseteq> {0..<length (pool search q n)}"
    using set_top_indices [of ?scores k] by (simp add: r)
  have ids: "distinct (map ((!) (pool_ids search q n)) r)"
    using assms(3) dist sub by (intro distinct_map_nth) (simp_all add: assms(4))
  have small: "int (length (pool search q n)) < k \<longrightarrow>
          length r = length (pool search q n) \<and> set r = {0..<length (pool search q n)}"
  proof
    assume "int (length (pool search q n)) < k"
    then have "int (length ?scores) \<le> k" by simp
    from top_indices_small_pool [OF this]
    show "length r = length (pool search q n) \<and> set r = {0..<length (pool search q n)}"
      by (simp add: r)
  qed
  from len dist ids sub small show ?thesis by blast
qed

theorem search_with_reranking_bounded_distinct_witness:
  "search_with_reranking
      (\<lambda>q n. \<lparr>res_ids = [[''d1_0'', ''d1_1'', ''d2_0'']],
               res_documents = [[''aa'', ''b'', ''cccc'']]\<rparr>)
      (\<lambda>q c. length c) ''baby'' 15 5 = Inr [2, 0, 1]
   \<and> int (length
        (pool (\<lambda>q n. \<lparr>res_ids = [[''d1_0'', ''d1_1'', ''d2_0'']],
                       res_documents = [[''aa'', ''b'', ''cccc'']]\<rparr>) ''baby'' 15)) < 5
   \<and> distinct
        (map ((!) (pool_ids (\<lambda>q n. \<lparr>res_ids = [[''d1_0'', ''d1_1'', ''d2_0'']],
                                    res_documents = [[''aa'', ''b'', ''cccc'']]\<rparr>) ''baby'' 15))
           [2, 0, 1])
   \<and> length [2, 0, 1 :: nat]
       = length (pool (\<lambda>q n. \<lparr>res_ids = [[''d1_0'', ''d1_1'', ''d2_0'']],
                              res_documents = [[''aa'', ''b'', ''cccc'']]\<rparr>) ''baby'' 15)"
proof -
  let ?search = "\<lambda>(q::string) (n::int). \<lparr>res_ids = [[''d1_0'', ''d1_1'', ''d2_0'']],
                                          res_documents = [[''aa'', ''b'', ''cccc'']]\<rparr>"
  have run: "search_with_reranking ?search (\<lambda>q c. length c) ''baby'' 15 5 = Inr [2, 0, 1]"
    by (simp add: search_with_reranking_def top_indices_def py_slice_to_def
        py_sorted_reverse_def upt_rec)
  have k: "(0::int) \<le> 5"
    by simp
  have ids: "distinct (pool_ids ?search ''baby'' 15)"
    by (simp add: pool_ids_def)
  have len: "length (pool_ids ?search ''baby'' 15) = length (pool ?search ''baby'' 15)"
    by (simp add: pool_ids_def pool_def)
  have small: "int (length (pool ?search ''baby'' 15)) < 5"
    by (simp add: pool_def)
  show ?thesis
    using run small search_with_reranking_bounded_distinct [OF run k ids len]
    by simp
qed

text \<open>
  Claim C2, as the code has it. The selected positions come in the order of a stable
  descending sort: the score never increases along the sequence, and of two entries with
  the same score the one retrieved first (the smaller pool position) comes first. The
  Fragment identifier plays no part in the order, and the code has no backfill pass.
\<close>

theorem top_indices_sorted_stable:
  "sorted_wrt (\<lambda>i j. scores ! j < scores ! i \<or> (scores ! i = scores ! j \<and> i < j))
     (top_indices scores final_top_k)
   \<and> sorted_wrt (\<lambda>a b. b \<le> a) (map ((!) scores) (top_indices scores final_top_k))"
proof
  show ord: "sorted_wrt (\<lambda>i j. scores ! j < scores ! i \<or> (scores ! i = scores ! j \<and> i < j))
     (top_indices scores final_top_k)"
    by (rule top_indices_order)
  have "sorted_wrt (\<lambda>i j. scores ! j \<le> scores ! i) (top_indices scores final_top_k)"
    by (rule sorted_wrt_mono_rel [OF _ ord]) auto
  then show "sorted_wrt (\<lambda>a b. b \<le> a) (map ((!) scores) (top_indices scores final_top_k))"
    by (simp add: sorted_wrt_map)
qed

text \<open>
  Claim C2 as it is written asks that ties be broken by Fragment identifier. Three
  candidates of equal score, retrieved with the identifiers 20, 10, 30, are returned in
  the order they were retrieved, which is ordered by identifier in neither direction.
\<close>

theorem ties_not_by_identifier_counterexample:
  "top_indices [1, 1, 1 :: int] 3 = [0, 1, 2]
   \<and> \<not> ordered_by_score_then_identifier [20, 10, 30 :: nat] [1, 1, 1 :: int]
         (top_indices [1, 1, 1 :: int] 3)
   \<and> \<not> ordered_by_score_then_identifier [20, 10, 30 :: nat] [1, 1, 1 :: int]
         (rev (top_indices [1, 1, 1 :: int] 3))"
  by (simp add: ordered_by_score_then_identifier_def top_indices_def py_slice_to_def py_sorted_reverse_def upt_rec)

subsection \<open>Query intent\<close>

lemma if_chain_cases:
  "v = (if a then x else if b then y else if c then z else w) \<Longrightarrow>
     v = x \<or> v = y \<or> v = z \<or> v = w"
  by simp

lemma classify_query_intent_cases:
  "classify_query_intent q = ''definition'' \<or> classify_query_intent q = ''coverage_check''
   \<or> classify_query_intent q = ''amount_query'' \<or> classify_query_intent q = ''general''"
  by (rule if_chain_cases [OF classify_query_intent_def [unfolded Let_def]])

text \<open>
  Claim C7, as the code has it. \<^verbatim>\<open>classify_query_intent\<close> returns one of exactly four
  values, each of which some query reaches: \<^verbatim>\<open>definition\<close>, \<^verbatim>\<open>coverage_check\<close>,
  \<^verbatim>\<open>amount_query\<close> and \<^verbatim>\<open>general\<close>.
\<close>

theorem classify_query_intent_range:
  "range classify_query_intent = {''definition'', ''coverage_check'', ''amount_query'', ''general''}"
proof
  show "range classify_query_intent \<subseteq> {''definition'', ''coverage_check'', ''amount_query'', ''general''}"
    using classify_query_intent_cases by auto
  have d: "classify_query_intent ''What is a newborn?'' = ''definition''" by code_simp
  have c: "classify_query_intent ''Is maternity included?'' = ''coverage_check''" by code_simp
  have a: "classify_query_intent ''How much?'' = ''amount_query''" by code_simp
  have g: "classify_query_intent [] = ''general''" by code_simp
  have "''definition'' \<in> range classify_query_intent" using d by (metis rangeI)
  moreover have "''coverage_check'' \<in> range classify_query_intent" using c by (metis rangeI)
  moreover have "''amount_query'' \<in> range classify_query_intent" using a by (metis rangeI)
  moreover have "''general'' \<in> range classify_query_intent" using g by (metis rangeI)
  ultimately show "{''definition'', ''coverage_check'', ''amount_query'', ''general''} \<subseteq> range classify_query_intent"
    by simp
qed

text \<open>
  Claim C7 as it is written names the values \<^verbatim>\<open>definition\<close>, \<^verbatim>\<open>exclusion\<close>,
  \<^verbatim>\<open>coverage\<close> and \<^verbatim>\<open>general\<close>. The query "Is maternity included?" is classified
  \<^verbatim>\<open>coverage_check\<close>, which is none of them.
\<close>

theorem classify_query_intent_counterexample:
  "classify_query_intent ''Is maternity included?'' = ''coverage_check''
   \<and> classify_query_intent ''Is maternity included?''
       \<notin> {''definition'', ''exclusion'', ''coverage'', ''general''}"
  by code_simp

subsection \<open>Adaptive scoring weights\<close>





lemma weight_nonneg: "0 \<le> weight query_type g"
  by (cases g) (simp_all add: weight_def score_def only_def)



section \<open>Properties of the engine of the specification\<close>

subsection \<open>The diversity reranker\<close>

lemma source_count_append:
  "source_count d (xs @ ys) = source_count d xs + source_count d ys"
  by (simp add: source_count_def)

lemma greedy_within_cap:
  assumes "\<forall>d. source_count d admitted \<le> max_per_source"
  shows "source_count d (greedy top_k max_per_source admitted cs) \<le> max_per_source"
  using assms
proof (induction cs arbitrary: admitted)
  case Nil
  then show ?case by simp
next
  case (Cons c cs)
  show ?case
  proof (cases "length admitted < top_k \<and> source_count (source_of c) admitted < max_per_source")
    case True
    have "\<forall>d. source_count d (admitted @ [c]) \<le> max_per_source"
    proof
      fix e
      show "source_count e (admitted @ [c]) \<le> max_per_source"
      proof (cases "source_of c = e")
        case True
        with \<open>length admitted < top_k \<and> source_count (source_of c) admitted < max_per_source\<close>
        show ?thesis
          by (simp add: source_count_def)
      next
        case False
        with Cons.prems show ?thesis
          by (simp add: source_count_def)
      qed
    qed
    then have "source_count d (greedy top_k max_per_source (admitted @ [c]) cs) \<le> max_per_source"
      by (rule Cons.IH)
    with True show ?thesis by simp
  next
    case False
    then have "greedy top_k max_per_source admitted (c # cs)
        = greedy top_k max_per_source admitted cs"
      by auto
    with Cons.IH [OF Cons.prems] show ?thesis by simp
  qed
qed

lemma set_greedy:
  "set (greedy top_k max_per_source admitted cs) \<subseteq> set admitted \<union> set cs"
proof (induction cs arbitrary: admitted)
  case Nil
  then show ?case by simp
next
  case (Cons c cs)
  have "set (greedy top_k max_per_source (admitted @ [c]) cs) \<subseteq> set (admitted @ [c]) \<union> set cs"
    by (rule Cons.IH)
  moreover have "set (greedy top_k max_per_source admitted cs) \<subseteq> set admitted \<union> set cs"
    by (rule Cons.IH)
  ultimately show ?case by auto
qed


lemma set_sort_candidates: "set (sort_candidates cs) = set cs"
  by (simp add: sort_candidates_def set_py_sorted_reverse)

lemma distinct_ident_sort_candidates:
  assumes "distinct (map ident_of cs)"
  shows "distinct (sort_candidates cs)" and "inj_on ident_of (set (sort_candidates cs))"
proof -
  from assms have d: "distinct cs" and i: "inj_on ident_of (set cs)"
    by (simp_all add: distinct_map)
  from d show "distinct (sort_candidates cs)"
    by (simp add: sort_candidates_def distinct_py_sorted_reverse)
  from i show "inj_on ident_of (set (sort_candidates cs))"
    by (simp add: set_sort_candidates)
qed

lemma source_count_filter_member:
  assumes "distinct ordered"
  shows "source_count d (filter (\<lambda>c. c \<in> set selected) ordered) \<le> source_count d selected"
proof -
  have "distinct (filter (\<lambda>c. c \<in> set selected) ordered)"
    using assms by simp
  then have "source_count d (filter (\<lambda>c. c \<in> set selected) ordered)
      = card ({c. source_of c = d} \<inter> set (filter (\<lambda>c. c \<in> set selected) ordered))"
    unfolding source_count_def by (rule distinct_length_filter)
  also have "\<dots> \<le> card (set (filter (\<lambda>c. source_of c = d) selected))"
    by (rule card_mono) auto
  also have "\<dots> \<le> source_count d selected"
    unfolding source_count_def by (rule card_length)
  finally show ?thesis .
qed

lemma filter_ident_member:
  assumes "inj_on ident_of (set ordered)" and "set selected \<subseteq> set ordered"
  shows "filter (\<lambda>c. ident_of c \<in> set (map ident_of selected)) ordered
       = filter (\<lambda>c. c \<in> set selected) ordered"
proof (rule filter_cong [OF refl])
  fix c assume c: "c \<in> set ordered"
  show "(ident_of c \<in> set (map ident_of selected)) = (c \<in> set selected)"
  proof
    assume "ident_of c \<in> set (map ident_of selected)"
    then obtain c' where c': "c' \<in> set selected" "ident_of c' = ident_of c"
      by auto
    with assms(2) have "c' \<in> set ordered" by blast
    with assms(1) c c'(2) have "c' = c"
      by (auto dest: inj_onD)
    with c'(1) show "c \<in> set selected" by simp
  next
    assume "c \<in> set selected"
    then show "ident_of c \<in> set (map ident_of selected)" by simp
  qed
qed

text \<open>
  Claim C3, on the reranker of the specification and for a pool whose Fragment identifiers
  are pairwise different. Whenever some source document contributes more than
  \<open>max_per_source\<close> fragments to the ranked result, the diversity shortfall is reported;
  and it is reported only when the greedy pass yielded fewer than \<open>top_k\<close> results and
  backfill filled a slot. So without a reported shortfall no source exceeds the cap.
\<close>

theorem rerank_cap_or_reported_shortfall:
  assumes "distinct (map ident_of scored_candidates)"
  shows "((\<exists>d. max_per_source < source_count d (entries (rerank scored_candidates top_k max_per_source)))
            \<longrightarrow> diversity_shortfall (rerank scored_candidates top_k max_per_source))
     \<and> (diversity_shortfall (rerank scored_candidates top_k max_per_source)
            \<longrightarrow> length (greedy top_k max_per_source [] (sort_candidates scored_candidates)) < top_k
              \<and> backfill top_k (greedy top_k max_per_source [] (sort_candidates scored_candidates))
                    (sort_candidates scored_candidates) \<noteq> [])"
proof -
  let ?ordered = "sort_candidates scored_candidates"
  let ?selected = "greedy top_k max_per_source [] ?ordered"
  let ?filled = "backfill top_k ?selected ?ordered"
  let ?res = "rerank scored_candidates top_k max_per_source"
  have flag: "diversity_shortfall ?res = (?filled \<noteq> [])"
    by (simp add: rerank_def Let_def)
  have ent: "entries ?res
      = filter (\<lambda>c. ident_of c \<in> set (map ident_of (?selected @ ?filled))) ?ordered"
    by (simp add: rerank_def Let_def)
  have first: "(\<exists>d. max_per_source < source_count d (entries ?res)) \<longrightarrow> diversity_shortfall ?res"
  proof (rule impI, rule ccontr)
    assume over: "\<exists>d. max_per_source < source_count d (entries ?res)"
      and "\<not> diversity_shortfall ?res"
    then have none: "?filled = []"
      by (simp add: flag)
    have sub: "set ?selected \<subseteq> set ?ordered"
      using set_greedy [of top_k max_per_source "[]" ?ordered] by simp
    have "entries ?res = filter (\<lambda>c. ident_of c \<in> set (map ident_of ?selected)) ?ordered"
      by (simp add: ent none)
    also have "\<dots> = filter (\<lambda>c. c \<in> set ?selected) ?ordered"
      using distinct_ident_sort_candidates(2) [OF assms] sub by (rule filter_ident_member)
    finally have e: "entries ?res = filter (\<lambda>c. c \<in> set ?selected) ?ordered" .
    from over obtain d where d: "max_per_source < source_count d (entries ?res)" ..
    have "source_count d (entries ?res) \<le> source_count d ?selected"
      unfolding e using distinct_ident_sort_candidates(1) [OF assms]
      by (rule source_count_filter_member)
    also have "\<dots> \<le> max_per_source"
      by (rule greedy_within_cap) (simp add: source_count_def)
    finally show False
      using d by simp
  qed
  have second: "diversity_shortfall ?res \<longrightarrow> length ?selected < top_k \<and> ?filled \<noteq> []"
  proof
    assume "diversity_shortfall ?res"
    then have ne: "?filled \<noteq> []"
      by (simp add: flag)
    then have "length ?selected < top_k"
      by (auto simp: backfill_def split: if_splits)
    with ne show "length ?selected < top_k \<and> ?filled \<noteq> []" by simp
  qed
  from first second show ?thesis ..
qed



theorem rerank_cap_or_reported_shortfall_witness:
  "distinct (map ident_of
        [\<lparr>sc_candidate = \<lparr>fragment_id = 1, source_document = 7, fragment_text = [],
            raw_distance = 0, hit_count = 1\<rparr>,
          sc_signals = only Semantic, composite_score = 0.9\<rparr>,
         \<lparr>sc_candidate = \<lparr>fragment_id = 2, source_document = 7, fragment_text = [],
            raw_distance = 0, hit_count = 1\<rparr>,
          sc_signals = only Semantic, composite_score = 0.8\<rparr>,
         \<lparr>sc_candidate = \<lparr>fragment_id = 3, source_document = 8, fragment_text = [],
            raw_distance = 0, hit_count = 1\<rparr>,
          sc_signals = only Semantic, composite_score = 0.5\<rparr>])
   \<and> 1 < source_count 7 (entries (rerank
        [\<lparr>sc_candidate = \<lparr>fragment_id = 1, source_document = 7, fragment_text = [],
            raw_distance = 0, hit_count = 1\<rparr>,
          sc_signals = only Semantic, composite_score = 0.9\<rparr>,
         \<lparr>sc_candidate = \<lparr>fragment_id = 2, source_document = 7, fragment_text = [],
            raw_distance = 0, hit_count = 1\<rparr>,
          sc_signals = only Semantic, composite_score = 0.8\<rparr>,
         \<lparr>sc_candidate = \<lparr>fragment_id = 3, source_document = 8, fragment_text = [],
            raw_distance = 0, hit_count = 1\<rparr>,
          sc_signals = only Semantic, composite_score = 0.5\<rparr>] 3 1))
   \<and> diversity_shortfall (rerank
        [\<lparr>sc_candidate = \<lparr>fragment_id = 1, source_document = 7, fragment_text = [],
            raw_distance = 0, hit_count = 1\<rparr>,
          sc_signals = only Semantic, composite_score = 0.9\<rparr>,
         \<lparr>sc_candidate = \<lparr>fragment_id = 2, source_document = 7, fragment_text = [],
            raw_distance = 0, hit_count = 1\<rparr>,
          sc_signals = only Semantic, composite_score = 0.8\<rparr>,
         \<lparr>sc_candidate = \<lparr>fragment_id = 3, source_document = 8, fragment_text = [],
            raw_distance = 0, hit_count = 1\<rparr>,
          sc_signals = only Semantic, composite_score = 0.5\<rparr>] 3 1)
   \<and> length (greedy 3 1 [] (sort_candidates
        [\<lparr>sc_candidate = \<lparr>fragment_id = 1, source_document = 7, fragment_text = [],
            raw_distance = 0, hit_count = 1\<rparr>,
          sc_signals = only Semantic, composite_score = 0.9\<rparr>,
         \<lparr>sc_candidate = \<lparr>fragment_id = 2, source_document = 7, fragment_text = [],
            raw_distance = 0, hit_count = 1\<rparr>,
          sc_signals = only Semantic, composite_score = 0.8\<rparr>,
         \<lparr>sc_candidate = \<lparr>fragment_id = 3, source_document = 8, fragment_text = [],
            raw_distance = 0, hit_count = 1\<rparr>,
          sc_signals = only Semantic, composite_score = 0.5\<rparr>])) < 3"
proof -
  let ?pool = "[\<lparr>sc_candidate = \<lparr>fragment_id = 1, source_document = 7, fragment_text = [],
            raw_distance = 0, hit_count = 1\<rparr>,
          sc_signals = only Semantic, composite_score = 0.9\<rparr>,
         \<lparr>sc_candidate = \<lparr>fragment_id = 2, source_document = 7, fragment_text = [],
            raw_distance = 0, hit_count = 1\<rparr>,
          sc_signals = only Semantic, composite_score = 0.8\<rparr>,
         \<lparr>sc_candidate = \<lparr>fragment_id = 3, source_document = 8, fragment_text = [],
            raw_distance = 0, hit_count = 1\<rparr>,
          sc_signals = only Semantic, composite_score = 0.5\<rparr>]"
  have d: "distinct (map ident_of ?pool)"
    by (simp add: ident_of_def)
  have over: "1 < source_count 7 (entries (rerank ?pool 3 1))"
    by (simp add: rerank_def sort_candidates_def py_sorted_reverse_def backfill_def
        source_count_def ident_of_def source_of_def Let_def)
  then have "\<exists>d. 1 < source_count d (entries (rerank ?pool 3 1))" ..
  with rerank_cap_or_reported_shortfall [OF d, of 1 3]
  have "diversity_shortfall (rerank ?pool 3 1)"
    and "length (greedy 3 1 [] (sort_candidates ?pool)) < 3"
    by blast+
  with d over show ?thesis
    by blast
qed

subsection \<open>The ranked result of the reranker\<close>



lemma set_backfill: "set (backfill top_k selected ordered) \<subseteq> set ordered"
  by (auto simp: backfill_def dest: in_set_takeD)

lemma rerank_entries_member:
  assumes "distinct (map ident_of scored_candidates)"
  shows "entries (rerank scored_candidates top_k max_per_source)
     = filter (\<lambda>c. c \<in> set (greedy top_k max_per_source [] (sort_candidates scored_candidates)
                  @ backfill top_k
                      (greedy top_k max_per_source [] (sort_candidates scored_candidates))
                      (sort_candidates scored_candidates)))
         (sort_candidates scored_candidates)"
proof -
  let ?ordered = "sort_candidates scored_candidates"
  let ?selected = "greedy top_k max_per_source [] ?ordered"
  let ?filled = "backfill top_k ?selected ?ordered"
  have "set ?selected \<subseteq> set ?ordered"
    using set_greedy [of top_k max_per_source "[]" ?ordered] by simp
  moreover have "set ?filled \<subseteq> set ?ordered"
    by (rule set_backfill)
  ultimately have sub: "set (?selected @ ?filled) \<subseteq> set ?ordered"
    by simp
  have "entries (rerank scored_candidates top_k max_per_source)
      = filter (\<lambda>c. ident_of c \<in> set (map ident_of (?selected @ ?filled))) ?ordered"
    by (simp add: rerank_def Let_def)
  also have "\<dots> = filter (\<lambda>c. c \<in> set (?selected @ ?filled)) ?ordered"
    using distinct_ident_sort_candidates(2) [OF assms] sub by (rule filter_ident_member)
  finally show ?thesis .
qed



lemma sort_candidates_descending:
  "sorted_wrt (\<lambda>a b. composite_score b \<le> composite_score a) (sort_candidates cs)"
proof -
  have "sorted (map composite_score (sort_key composite_score (rev (sort_key ident_of cs))))"
    by (rule sorted_sort_key)
  then have "sorted_wrt (\<lambda>a b. composite_score a \<le> composite_score b)
      (sort_key composite_score (rev (sort_key ident_of cs)))"
    by (simp add: sorted_map)
  then have "sorted_wrt (\<lambda>b a. composite_score a \<le> composite_score b)
      (rev (sort_key composite_score (rev (sort_key ident_of cs))))"
    by (simp add: sorted_wrt_rev)
  then show ?thesis
    by (simp add: sort_candidates_def py_sorted_reverse_def)
qed

lemma rerank_descending:
  "sorted_wrt (\<lambda>a b. composite_score b \<le> composite_score a)
     (entries (rerank scored_candidates top_k max_per_source))"
  by (simp add: rerank_def Let_def sorted_wrt_filter sort_candidates_descending)








text \<open>
  The report is exact: a reported shortfall always comes with a source document over the
  cap, since a candidate the greedy pass left out while slots were free is one whose
  source had reached the cap.
\<close>

lemma greedy_extends:
  "\<exists>ys. greedy top_k max_per_source admitted cs = admitted @ ys"
proof (induction cs arbitrary: admitted)
  case Nil
  then show ?case by simp
next
  case (Cons c cs)
  obtain ys where "greedy top_k max_per_source (admitted @ [c]) cs = (admitted @ [c]) @ ys"
    using Cons.IH by blast
  moreover obtain zs where "greedy top_k max_per_source admitted cs = admitted @ zs"
    using Cons.IH by blast
  ultimately show ?case by auto
qed

lemma distinct_greedy:
  "distinct (admitted @ cs) \<Longrightarrow> distinct (greedy top_k max_per_source admitted cs)"
proof (induction cs arbitrary: admitted)
  case Nil
  then show ?case by simp
next
  case (Cons c cs)
  from Cons.prems have a: "distinct ((admitted @ [c]) @ cs)" and b: "distinct (admitted @ cs)"
    by auto
  have "distinct (greedy top_k max_per_source (admitted @ [c]) cs)"
    using a by (rule Cons.IH)
  moreover have "distinct (greedy top_k max_per_source admitted cs)"
    using b by (rule Cons.IH)
  ultimately show ?case by simp
qed

lemma greedy_rejects_at_cap:
  assumes "length (greedy top_k max_per_source admitted cs) < top_k"
    and "c \<in> set cs" and "c \<notin> set (greedy top_k max_per_source admitted cs)"
  shows "max_per_source \<le> source_count (source_of c) (greedy top_k max_per_source admitted cs)"
  using assms
proof (induction cs arbitrary: admitted)
  case Nil
  then show ?case by simp
next
  case (Cons x cs)
  show ?case
  proof (cases "length admitted < top_k \<and> source_count (source_of x) admitted < max_per_source")
    case True
    then have eq: "greedy top_k max_per_source admitted (x # cs)
        = greedy top_k max_per_source (admitted @ [x]) cs"
      by simp
    obtain ys where ys: "greedy top_k max_per_source (admitted @ [x]) cs = (admitted @ [x]) @ ys"
      using greedy_extends by blast
    have "x \<in> set (greedy top_k max_per_source admitted (x # cs))"
      by (simp only: eq ys) simp
    with Cons.prems(3) have "c \<noteq> x"
      by blast
    with Cons.prems(2) have "c \<in> set cs" by simp
    with Cons.prems(1,3) show ?thesis
      unfolding eq by (intro Cons.IH)
  next
    case False
    then have eq: "greedy top_k max_per_source admitted (x # cs)
        = greedy top_k max_per_source admitted cs"
      by auto
    obtain ys where ys: "greedy top_k max_per_source admitted cs = admitted @ ys"
      using greedy_extends by blast
    show ?thesis
    proof (cases "c = x")
      case True
      have "length admitted < top_k"
        using Cons.prems(1) [unfolded eq ys] by simp
      with False have "max_per_source \<le> source_count (source_of x) admitted"
        by simp
      also have "\<dots> \<le> source_count (source_of x) (admitted @ ys)"
        by (simp add: source_count_append)
      finally show ?thesis
        by (simp only: eq ys True)
    next
      case False
      with Cons.prems(2) have "c \<in> set cs" by simp
      with Cons.prems(1,3) show ?thesis
        unfolding eq by (intro Cons.IH)
    qed
  qed
qed

lemma source_count_distinct:
  "distinct cs \<Longrightarrow> source_count d cs = card {c \<in> set cs. source_of c = d}"
proof -
  assume "distinct cs"
  then have "length (filter (\<lambda>c. source_of c = d) cs) = card ({c. source_of c = d} \<inter> set cs)"
    by (rule distinct_length_filter)
  moreover have "{c. source_of c = d} \<inter> set cs = {c \<in> set cs. source_of c = d}"
    by auto
  ultimately show ?thesis
    by (simp add: source_count_def)
qed

lemma shortfall_exceeds_cap:
  assumes "distinct (map ident_of scored_candidates)"
    and "diversity_shortfall (rerank scored_candidates top_k max_per_source)"
  shows "\<exists>d. max_per_source < source_count d (entries (rerank scored_candidates top_k max_per_source))"
proof -
  let ?ordered = "sort_candidates scored_candidates"
  let ?selected = "greedy top_k max_per_source [] ?ordered"
  let ?filled = "backfill top_k ?selected ?ordered"
  let ?entries = "entries (rerank scored_candidates top_k max_per_source)"
  have dord: "distinct ?ordered"
    by (rule distinct_ident_sort_candidates(1) [OF assms(1)])
  have dsel: "distinct ?selected"
    by (rule distinct_greedy) (simp add: dord)
  from assms(2) have "?filled \<noteq> []"
    by (simp add: rerank_def Let_def)
  then have "hd ?filled \<in> set ?filled"
    by (rule hd_in_set)
  then obtain c where c: "c \<in> set ?filled" ..
  then have short: "length ?selected < top_k"
    and cin: "c \<in> set (filter (\<lambda>c. ident_of c \<notin> set (map ident_of ?selected)) ?ordered)"
    by (auto simp: backfill_def split: if_splits dest: in_set_takeD)
  from cin have cord: "c \<in> set ?ordered" and cnot: "c \<notin> set ?selected"
    by auto
  have cap: "max_per_source \<le> source_count (source_of c) ?selected"
    using short cord cnot by (rule greedy_rejects_at_cap)
  have ent: "?entries = filter (\<lambda>x. x \<in> set (?selected @ ?filled)) ?ordered"
    by (rule rerank_entries_member [OF assms(1)])
  have sub: "set ?selected \<subseteq> set ?ordered"
    using set_greedy [of top_k max_per_source "[]" ?ordered] by simp
  have dent: "distinct ?entries"
    by (simp add: ent dord)
  have "insert c {x \<in> set ?selected. source_of x = source_of c}
      \<subseteq> {x \<in> set ?entries. source_of x = source_of c}"
    using sub cord c by (auto simp: ent)
  then have "card (insert c {x \<in> set ?selected. source_of x = source_of c})
      \<le> card {x \<in> set ?entries. source_of x = source_of c}"
    by (intro card_mono) simp_all
  moreover have "card (insert c {x \<in> set ?selected. source_of x = source_of c})
      = Suc (card {x \<in> set ?selected. source_of x = source_of c})"
    using cnot by (intro card_insert_disjoint) simp_all
  ultimately have "Suc (source_count (source_of c) ?selected) \<le> source_count (source_of c) ?entries"
    by (simp add: source_count_distinct dsel dent)
  with cap have "max_per_source < source_count (source_of c) ?entries"
    by simp
  then show ?thesis ..
qed



end
